theory Spec2Isabelle
  imports Complex_Main "HOL-Library.Sublist" "HOL-Library.Multiset"
begin

section \<open>Python floats\<close>

text \<open>
  The scores of \<^verbatim>\<open>worker.py\<close> are Python floats (IEEE 754 binary64). A finite float is
  modelled by the rational number it denotes; every operation computes the exact rational
  result and rounds it to the nearest number with a 53 bit significand, ties to even
  (\<open>fl\<close>). The exponent range is not bounded below: the floats of this program are integers
  divided by 100, differences of such quotients and multiples of 1/100, none of which is
  subnormal. Overflow is possible only when the engine's integer is converted to a float,
  where Python raises \<^verbatim>\<open>OverflowError\<close>. The two zeros of binary64 are one value here.
\<close>

type_synonym float = rat

datatype error =
  IllegalMoveError | EngineError | OverflowError | ZeroDivisionError | ValueError

function bit_length :: "int \<Rightarrow> int" where
  "bit_length n = (if n \<le> 0 then 0 else 1 + bit_length (n div 2))"
  by pat_completeness auto
termination
  by (relation "measure nat") auto

declare bit_length.simps [simp del]

definition pow2 :: "int \<Rightarrow> rat" where
  "pow2 k = (if 0 \<le> k then 2 ^ nat k else 1 / 2 ^ nat (- k))"

text \<open>For \<open>0 < x\<close>, \<open>exponent x\<close> is the integer \<open>e\<close> with \<open>2^e \<le> x < 2^(e+1)\<close>.\<close>

definition exponent :: "rat \<Rightarrow> int" where
  "exponent x =
     (let (p, q) = quotient_of x;
          d = bit_length p - bit_length q
      in if pow2 d \<le> x then d else d - 1)"

definition round_half_even :: "rat \<Rightarrow> int" where
  "round_half_even x =
     (let n = \<lfloor>x\<rfloor>; r = x - of_int n
      in if r < 1 / 2 then n else if 1 / 2 < r then n + 1
         else if even n then n else n + 1)"

definition fl :: "rat \<Rightarrow> float" where
  "fl x = (if x = 0 then 0
           else let u = pow2 (exponent \<bar>x\<bar> - 52)
                in of_int (round_half_even (x / u)) * u)"

text \<open>\<^verbatim>\<open>a - b\<close> and \<^verbatim>\<open>abs(a)\<close> on floats.\<close>

definition fsub :: "float \<Rightarrow> float \<Rightarrow> float" where
  "fsub a b = fl (a - b)"

definition fabs :: "float \<Rightarrow> float" where
  "fabs a = \<bar>a\<bar>"

text \<open>
  \<^verbatim>\<open>n / d\<close> for an int \<^verbatim>\<open>n\<close> and a float \<^verbatim>\<open>d\<close>: the int is converted to a float first,
  which raises \<^verbatim>\<open>OverflowError\<close> when the rounded value does not fit, that is when it is
  \<open>2^1024\<close> or more and so has more than 1024 bits; the division then rounds once more.
  The only divisor of the program is \<^verbatim>\<open>100.0\<close>.
\<close>

definition truediv :: "int \<Rightarrow> float \<Rightarrow> error + float" where
  "truediv n d =
     (let x = fl (of_int n)
      in if 1024 < bit_length \<lfloor>\<bar>x\<bar>\<rfloor> then Inl OverflowError
         else if d = 0 then Inl ZeroDivisionError
         else Inr (fl (x / d)))"

text \<open>
  \<^verbatim>\<open>round(x, ndigits)\<close> for \<^verbatim>\<open>ndigits \<ge> 0\<close>: CPython rounds the exact value of the float to
  \<^verbatim>\<open>ndigits\<close> decimals, ties to even, and converts the decimal back to the nearest float.
\<close>

definition py_round :: "float \<Rightarrow> nat \<Rightarrow> float" where
  "py_round x ndigits =
     fl (of_int (round_half_even (x * 10 ^ ndigits)) / 10 ^ ndigits)"

text \<open>
  \<^verbatim>\<open>sorted(xs, key=key, reverse=reverse)\<close>: a stable sort; with \<^verbatim>\<open>reverse=True\<close> CPython
  reverses the list, sorts it and reverses the result, which keeps elements with equal
  keys in their original order.
\<close>

definition py_sorted :: "('a \<Rightarrow> 'k::linorder) \<Rightarrow> bool \<Rightarrow> 'a list \<Rightarrow> 'a list" where
  "py_sorted key reverse xs =
     (if reverse then rev (sort_key key (rev xs)) else sort_key key xs)"


section \<open>The chess library and the engine\<close>

text \<open>
  \<^verbatim>\<open>worker.py\<close> uses the chess library through \<^verbatim>\<open>board.push(move)\<close>, \<^verbatim>\<open>board.fen()\<close> and
  \<^verbatim>\<open>move.uci()\<close>. The library is a parameter of the model: a type \<open>'b\<close> of boards, a type
  \<open>'m\<close> of moves and the three operations, of which \<open>board_push\<close> may raise.
\<close>

record ('b, 'm) chess =
  board_push :: "'b \<Rightarrow> 'm \<Rightarrow> error + 'b"
  board_fen :: "'b \<Rightarrow> string"
  move_uci :: "'m \<Rightarrow> string"

text \<open>A parsed game: \<^verbatim>\<open>game.board()\<close> and \<^verbatim>\<open>game.mainline_moves()\<close>.\<close>

record ('b, 'm) game =
  board :: 'b
  mainline_moves :: "'m list"

text \<open>
  The engine is an external process. Its state is the list of the calls made on it so far;
  \<open>reply\<close> is the outcome of
  \<^verbatim>\<open>engine.analyse(board, Limit(depth=18))["score"].pov(board.turn).score(mate_score=10000)\<close>
  on a board, given the earlier calls: an exception, or the integer the library returns.
\<close>

datatype 'b call = Analyse 'b nat | Quit

record 'b engine =
  reply :: "'b call list \<Rightarrow> 'b \<Rightarrow> error + int"
  calls :: "'b call list"

definition analyse :: "'b engine \<Rightarrow> 'b \<Rightarrow> nat \<Rightarrow> (error + int) \<times> 'b engine" where
  "analyse eng b depth =
     (reply eng (calls eng) b, eng\<lparr>calls := calls eng @ [Analyse b depth]\<rparr>)"

definition quit :: "'b engine \<Rightarrow> 'b engine" where
  "quit eng = eng\<lparr>calls := calls eng @ [Quit]\<rparr>"


section \<open>Configuration\<close>

text \<open>
  The module constants read by \<^verbatim>\<open>analyze_game\<close> and \<^verbatim>\<open>generate_puzzles\<close>. They are
  globals of the module, looked up when the functions run, so the model takes them as a
  record; \<open>default_config\<close> holds the values of the source.
\<close>

record config =
  BATCH_SIZE :: nat
  TARGET_PUZZLES :: nat
  MIN_EVAL_SWING :: float

definition default_config :: config where
  "default_config = \<lparr>BATCH_SIZE = 5, TARGET_PUZZLES = 8, MIN_EVAL_SWING = 3 / 2\<rparr>"


section \<open>analyze_game\<close>

record puzzle =
  fen :: string
  swing :: float
  last_move :: string
  eval :: float

text \<open>Lines 52 to 60: the comparison with the previous evaluation.\<close>

definition detect ::
  "config \<Rightarrow> ('b, 'm) chess \<Rightarrow> 'b \<Rightarrow> 'm \<Rightarrow> float option \<Rightarrow> float \<Rightarrow> puzzle list \<Rightarrow> puzzle list"
where
  "detect cfg L b move prev_eval score puzzles =
     (case prev_eval of
        None \<Rightarrow> puzzles
      | Some prev \<Rightarrow>
          let s = fabs (fsub score prev)
          in if MIN_EVAL_SWING cfg \<le> s
             then puzzles @
                  [\<lparr>fen = board_fen L b, swing = py_round s 2,
                    last_move = move_uci L move, eval = py_round score 2\<rparr>]
             else puzzles)"

text \<open>
  The loop of lines 47 to 61. An exception of a library call leaves the loop and the
  function; the engine keeps the calls made so far.
\<close>

fun analyze_moves ::
  "config \<Rightarrow> ('b, 'm) chess \<Rightarrow> 'm list \<Rightarrow> 'b \<Rightarrow> float option \<Rightarrow> puzzle list \<Rightarrow> 'b engine
   \<Rightarrow> (error + puzzle list) \<times> 'b engine"
where
  "analyze_moves cfg L [] b prev_eval puzzles eng = (Inr puzzles, eng)"
| "analyze_moves cfg L (move # rest) b prev_eval puzzles eng =
     (case board_push L b move of
        Inl err \<Rightarrow> (Inl err, eng)
      | Inr b' \<Rightarrow>
          (case analyse eng b' 18 of
             (Inl err, eng') \<Rightarrow> (Inl err, eng')
           | (Inr cp, eng') \<Rightarrow>
               (case truediv cp 100 of
                  Inl err \<Rightarrow> (Inl err, eng')
                | Inr score \<Rightarrow>
                    analyze_moves cfg L rest b' (Some score)
                      (detect cfg L b' move prev_eval score puzzles) eng')))"

definition analyze_game ::
  "config \<Rightarrow> ('b, 'm) chess \<Rightarrow> 'b engine \<Rightarrow> ('b, 'm) game
   \<Rightarrow> (error + puzzle list) \<times> 'b engine"
where
  "analyze_game cfg L eng g =
     analyze_moves cfg L (mainline_moves g) (board g) None [] eng"

text \<open>
  The positions, moves and scores that the loop goes through before it ends or a library
  call raises: the board after each move, the move, and the score obtained there.
\<close>

fun replay ::
  "('b, 'm) chess \<Rightarrow> 'm list \<Rightarrow> 'b \<Rightarrow> 'b engine \<Rightarrow> ('b \<times> 'm \<times> float) list"
where
  "replay L [] b eng = []"
| "replay L (move # rest) b eng =
     (case board_push L b move of
        Inl err \<Rightarrow> []
      | Inr b' \<Rightarrow>
          (case analyse eng b' 18 of
             (Inl err, eng') \<Rightarrow> []
           | (Inr cp, eng') \<Rightarrow>
               (case truediv cp 100 of
                  Inl err \<Rightarrow> []
                | Inr score \<Rightarrow> (b', move, score) # replay L rest b' eng')))"

text \<open>The candidates that lines 52 to 60 emit along a replay, from a previous evaluation.\<close>

fun swings ::
  "config \<Rightarrow> ('b, 'm) chess \<Rightarrow> float option \<Rightarrow> ('b \<times> 'm \<times> float) list \<Rightarrow> puzzle list"
where
  "swings cfg L prev_eval [] = []"
| "swings cfg L prev_eval ((b, move, score) # tr) =
     detect cfg L b move prev_eval score [] @ swings cfg L (Some score) tr"

definition score_at :: "('b \<times> 'm \<times> float) list \<Rightarrow> nat \<Rightarrow> float" where
  "score_at tr i = snd (snd (tr ! i))"

text \<open>The candidate of step \<open>i\<close> of a replay, \<open>1 \<le> i\<close>.\<close>

definition candidate :: "('b, 'm) chess \<Rightarrow> ('b \<times> 'm \<times> float) list \<Rightarrow> nat \<Rightarrow> puzzle" where
  "candidate L tr i =
     \<lparr>fen = board_fen L (fst (tr ! i)),
      swing = py_round (fabs (fsub (score_at tr i) (score_at tr (i - 1)))) 2,
      last_move = move_uci L (fst (snd (tr ! i))),
      eval = py_round (score_at tr i) 2\<rparr>"


section \<open>generate_puzzles\<close>

text \<open>
  The model starts at line 104, with the games loaded and the engine opened. The inner
  loop of lines 110 to 114, over the games of one batch:
\<close>

fun analyze_batch ::
  "config \<Rightarrow> ('b, 'm) chess \<Rightarrow> ('b, 'm) game list \<Rightarrow> puzzle list \<Rightarrow> 'b engine
   \<Rightarrow> (error + puzzle list) \<times> 'b engine"
where
  "analyze_batch cfg L [] puzzles eng = (Inr puzzles, eng)"
| "analyze_batch cfg L (g # rest) puzzles eng =
     (case analyze_game cfg L eng g of
        (Inl err, eng') \<Rightarrow> (Inl err, eng')
      | (Inr found, eng') \<Rightarrow>
          if TARGET_PUZZLES cfg \<le> length (puzzles @ found)
          then (Inr (puzzles @ found), eng')
          else analyze_batch cfg L rest (puzzles @ found) eng')"

text \<open>
  The outer loop of lines 107 to 116, over \<^verbatim>\<open>range(0, len(games), BATCH_SIZE)\<close>, which
  raises \<^verbatim>\<open>ValueError\<close> for a step of 0.
\<close>

function analyze_batches ::
  "config \<Rightarrow> ('b, 'm) chess \<Rightarrow> nat \<Rightarrow> ('b, 'm) game list \<Rightarrow> puzzle list \<Rightarrow> 'b engine
   \<Rightarrow> (error + puzzle list) \<times> 'b engine"
where
  "analyze_batches cfg L i games puzzles eng =
     (if BATCH_SIZE cfg = 0 then (Inl ValueError, eng)
      else if i < length games then
        (case analyze_batch cfg L (take (BATCH_SIZE cfg) (drop i games)) puzzles eng of
           (Inl err, eng') \<Rightarrow> (Inl err, eng')
         | (Inr puzzles', eng') \<Rightarrow>
             if TARGET_PUZZLES cfg \<le> length puzzles' then (Inr puzzles', eng')
             else analyze_batches cfg L (i + BATCH_SIZE cfg) games puzzles' eng')
      else (Inr puzzles, eng))"
  by pat_completeness auto
termination
  by (relation "measure (\<lambda>(cfg, L, i, games, puzzles, eng). length games - i)") auto

declare analyze_batches.simps [simp del]

text \<open>Line 119: the ranking.\<close>

definition rank :: "config \<Rightarrow> puzzle list \<Rightarrow> puzzle list" where
  "rank cfg puzzles = take (TARGET_PUZZLES cfg) (py_sorted swing True puzzles)"

text \<open>
  Lines 104 to 123. The upload of line 122 catches its own exceptions and does not change
  the list, so the value returned is the ranked list.
\<close>

definition generate_puzzles ::
  "config \<Rightarrow> ('b, 'm) chess \<Rightarrow> ('b, 'm) game list \<Rightarrow> 'b engine
   \<Rightarrow> (error + puzzle list) \<times> 'b engine"
where
  "generate_puzzles cfg L games eng =
     (case analyze_batches cfg L 0 games [] eng of
        (Inl err, eng') \<Rightarrow> (Inl err, eng')
      | (Inr puzzles, eng') \<Rightarrow> (Inr (rank cfg puzzles), quit eng'))"


section \<open>A stub library and a scripted engine\<close>

text \<open>
  For concrete runs: boards are the strings of the moves played, a move is a character,
  and every move can be applied. The scripted engine answers its \<open>n\<close>-th call with the
  \<open>n\<close>-th entry of its script and fails when the script is used up. \<open>huge_score\<close> is an
  integer too large for a float.
\<close>

definition stub_chess :: "(string, char) chess" where
  "stub_chess =
     \<lparr>board_push = (\<lambda>b m. Inr (b @ [m])),
      board_fen = (\<lambda>b. b),
      move_uci = (\<lambda>m. [m])\<rparr>"

definition scripted :: "int list \<Rightarrow> string engine" where
  "scripted script =
     \<lparr>reply = (\<lambda>cs b. if length cs < length script then Inr (script ! length cs)
                       else Inl EngineError),
      calls = []\<rparr>"

definition stub_game :: "string \<Rightarrow> (string, char) game" where
  "stub_game ms = \<lparr>board = [], mainline_moves = ms\<rparr>"



section \<open>Properties of the float operations\<close>

lemma pow2_powi: "pow2 k = power_int 2 k"
  by (simp add: pow2_def power_int_def field_simps)

lemma pow2_pos: "0 < pow2 k"
  by (simp add: pow2_powi)

lemma pow2_add: "pow2 (a + b) = pow2 a * pow2 b"
  by (simp add: pow2_powi power_int_add)

lemma pow2_diff: "pow2 (a - b) = pow2 a / pow2 b"
  by (simp add: pow2_powi power_int_diff)

lemma pow2_mono: "a \<le> b \<Longrightarrow> pow2 a \<le> pow2 b"
  by (simp add: pow2_powi power_int_increasing)

lemma pow2_less_imp: "pow2 a < pow2 b \<Longrightarrow> a < b"
  using pow2_mono [of b a] by (cases "a < b") simp_all

lemma pow2_nat: "0 \<le> k \<Longrightarrow> pow2 k = of_int (2 ^ nat k)"
  by (simp add: pow2_def)

lemma bit_length_nonneg: "0 \<le> bit_length n"
proof (induction n rule: bit_length.induct)
  case (1 n)
  then show ?case by (subst bit_length.simps) simp
qed

lemma bit_length_pos: "0 < n \<Longrightarrow> 0 < bit_length n"
  using bit_length_nonneg [of "n div 2"] by (subst bit_length.simps) simp

lemma bit_length_bounds:
  "0 < n \<Longrightarrow> 2 ^ nat (bit_length n - 1) \<le> n \<and> n < 2 ^ nat (bit_length n)"
proof (induction n rule: bit_length.induct)
  case (1 n)
  show ?case
  proof (cases "n = 1")
    case True
    have "bit_length 1 = 1"
      by (simp add: bit_length.simps [of 1] bit_length.simps [of 0])
    with True show ?thesis by simp
  next
    case False
    with "1.prems" have h: "0 < n div 2" by simp
    from "1.IH" [OF _ h] "1.prems"
    have IH: "2 ^ nat (bit_length (n div 2) - 1) \<le> n div 2" "n div 2 < 2 ^ nat (bit_length (n div 2))"
      by simp_all
    have bl: "bit_length n = 1 + bit_length (n div 2)"
      using "1.prems" by (subst bit_length.simps) simp
    have p: "0 < bit_length (n div 2)" using h by (rule bit_length_pos)
    have e1: "nat (bit_length n - 1) = Suc (nat (bit_length (n div 2) - 1))"
      using p bl by simp
    have e2: "nat (bit_length n) = Suc (nat (bit_length (n div 2)))"
      using p bl by simp
    have "2 * 2 ^ nat (bit_length (n div 2) - 1) \<le> n" using IH(1) by linarith
    moreover have "n < 2 * 2 ^ nat (bit_length (n div 2))" using IH(2) by linarith
    ultimately show ?thesis by (simp add: e1 e2)
  qed
qed

lemma bit_length_pow2_bounds:
  assumes "0 < n"
  shows "pow2 (bit_length n - 1) \<le> of_int n" and "of_int n < pow2 (bit_length n)"
proof -
  from bit_length_bounds [OF assms]
  have a: "2 ^ nat (bit_length n - 1) \<le> n" and b: "n < 2 ^ nat (bit_length n)" by simp_all
  have p: "0 < bit_length n" using assms by (rule bit_length_pos)
  have "(of_int (2 ^ nat (bit_length n - 1)) :: rat) \<le> of_int n"
    using a by (simp only: of_int_le_iff)
  then show "pow2 (bit_length n - 1) \<le> of_int n"
    using p by (simp add: pow2_nat)
  have "(of_int n :: rat) < of_int (2 ^ nat (bit_length n))"
    using b by (simp only: of_int_less_iff)
  then show "of_int n < pow2 (bit_length n)"
    using p by (simp add: pow2_nat)
qed

lemma exponent_bounds:
  assumes "0 < x"
  shows "pow2 (exponent x) \<le> x" and "x < pow2 (exponent x + 1)"
proof -
  obtain p q where pq: "quotient_of x = (p, q)" by (cases "quotient_of x")
  have q: "0 < q" using pq by (rule quotient_of_denom_pos)
  have x: "x = of_int p / of_int q" using pq by (rule quotient_of_div)
  have p: "0 < p" using assms q unfolding x by (simp add: zero_less_divide_iff)
  let ?d = "bit_length p - bit_length q"
  note P = bit_length_pow2_bounds [OF p] and Q = bit_length_pow2_bounds [OF q]
  have qr: "(0::rat) < of_int q" using q by simp
  have "x < pow2 (bit_length p) / pow2 (bit_length q - 1)"
    unfolding x using p by (intro frac_less P(2) Q(1) pow2_pos) simp
  then have up: "x < pow2 (?d + 1)"
    by (simp add: pow2_diff [symmetric] algebra_simps)
  have "pow2 (bit_length p - 1) / pow2 (bit_length q) < x"
    unfolding x by (intro frac_less2 P(1) Q(2) pow2_pos qr)
  then have lo: "pow2 (?d - 1) < x"
    by (simp add: pow2_diff [symmetric] algebra_simps)
  have e: "exponent x = (if pow2 ?d \<le> x then ?d else ?d - 1)"
    by (simp add: exponent_def pq Let_def)
  show "pow2 (exponent x) \<le> x"
    using lo by (simp add: e)
  show "x < pow2 (exponent x + 1)"
    using up by (auto simp: e)
qed

lemma round_half_even_ge: "of_int n \<le> x \<Longrightarrow> n \<le> round_half_even x"
proof -
  assume "of_int n \<le> x"
  then have "n \<le> \<lfloor>x\<rfloor>" by (simp add: le_floor_iff)
  moreover have "\<lfloor>x\<rfloor> \<le> round_half_even x"
    by (simp add: round_half_even_def Let_def)
  ultimately show ?thesis by simp
qed

lemma fl_ge_pow2:
  assumes "0 < x"
  shows "pow2 (exponent x) \<le> fl x"
proof -
  let ?e = "exponent x"
  let ?u = "pow2 (?e - 52)"
  have u: "0 < ?u" by (rule pow2_pos)
  have "pow2 ?e / ?u \<le> x / ?u"
    using exponent_bounds(1) [OF assms] less_imp_le [OF u] by (rule divide_right_mono)
  moreover have "pow2 ?e / ?u = of_int (2 ^ 52)"
  proof -
    have "pow2 ?e / ?u = pow2 (?e - (?e - 52))" by (rule pow2_diff [symmetric])
    also have "\<dots> = pow2 52" by simp
    also have "\<dots> = of_int (2 ^ 52)" by (simp add: pow2_def)
    finally show ?thesis .
  qed
  ultimately have "2 ^ 52 \<le> round_half_even (x / ?u)"
    by (intro round_half_even_ge) simp
  then have "(of_int (2 ^ 52) :: rat) \<le> of_int (round_half_even (x / ?u))"
    by (simp only: of_int_le_iff)
  then have "of_int (2 ^ 52) * ?u \<le> of_int (round_half_even (x / ?u)) * ?u"
    using u by (simp only: mult_le_cancel_right_pos)
  moreover have "of_int (2 ^ 52) * ?u = pow2 ?e"
  proof -
    have "pow2 ?e = pow2 (52 + (?e - 52))" by simp
    also have "\<dots> = pow2 52 * ?u" by (rule pow2_add)
    also have "pow2 52 = of_int (2 ^ 52)" by (simp add: pow2_def)
    finally show ?thesis by simp
  qed
  moreover have "fl x = of_int (round_half_even (x / ?u)) * ?u"
    using assms by (simp add: fl_def Let_def)
  ultimately show ?thesis by simp
qed

lemma fl_ge_three_halves:
  assumes "3 / 2 \<le> x"
  shows "3 / 2 \<le> fl x"
proof -
  have pos: "0 < x" using assms by simp
  let ?e = "exponent x"
  have "pow2 0 < pow2 (?e + 1)"
    using exponent_bounds(2) [OF pos] assms by (simp add: pow2_def)
  then have e: "0 \<le> ?e" using pow2_less_imp [of 0 "?e + 1"] by simp
  show ?thesis
  proof (cases "?e = 0")
    case True
    let ?u = "pow2 (- 52)"
    have u: "0 < ?u" by (rule pow2_pos)
    have fl: "fl x = of_int (round_half_even (x / ?u)) * ?u"
      using pos True by (simp add: fl_def Let_def)
    have "(3 / 2) / ?u \<le> x / ?u"
      using assms less_imp_le [OF u] by (rule divide_right_mono)
    moreover have "(3 / 2) / ?u = of_int (3 * 2 ^ 51)"
      by (simp add: pow2_def)
    ultimately have "3 * 2 ^ 51 \<le> round_half_even (x / ?u)"
      by (intro round_half_even_ge) simp
    then have "(of_int (3 * 2 ^ 51) :: rat) \<le> of_int (round_half_even (x / ?u))"
      by (simp only: of_int_le_iff)
    then have "of_int (3 * 2 ^ 51) * ?u \<le> of_int (round_half_even (x / ?u)) * ?u"
      using u by (simp only: mult_le_cancel_right_pos)
    moreover have "of_int (3 * 2 ^ 51) * ?u = 3 / 2"
      by (simp add: pow2_def)
    ultimately have "3 / 2 \<le> of_int (round_half_even (x / ?u)) * ?u"
      by (simp only:)
    then show ?thesis by (simp only: fl)
  next
    case False
    with e have "1 \<le> ?e" by simp
    then have "pow2 1 \<le> pow2 ?e" by (rule pow2_mono)
    with fl_ge_pow2 [OF pos] show ?thesis by (simp add: pow2_def)
  qed
qed

lemma py_round_ge:
  assumes "3 / 2 \<le> s"
  shows "3 / 2 \<le> py_round s 2"
proof -
  have "of_int 150 \<le> s * 10 ^ 2" using assms by simp
  then have "150 \<le> round_half_even (s * 10 ^ 2)" by (rule round_half_even_ge)
  then have "(of_int 150 :: rat) \<le> of_int (round_half_even (s * 10 ^ 2))"
    by (simp only: of_int_le_iff)
  then have "3 / 2 \<le> of_int (round_half_even (s * 10 ^ 2)) / (10 ^ 2 :: rat)"
    by simp
  then show ?thesis unfolding py_round_def by (rule fl_ge_three_halves)
qed




text \<open>\<open>fl\<close> rounds to a nearest float: the error is at most half a unit in the last place.\<close>

lemma round_half_even_error: "\<bar>of_int (round_half_even x) - x\<bar> \<le> 1 / 2"
proof -
  have "of_int \<lfloor>x\<rfloor> \<le> x" "x < of_int \<lfloor>x\<rfloor> + 1" by linarith+
  then show ?thesis
    by (auto simp: round_half_even_def Let_def abs_le_iff)
qed

lemma fl_error:
  assumes "x \<noteq> 0"
  shows "\<bar>fl x - x\<bar> \<le> pow2 (exponent \<bar>x\<bar> - 53)"
proof -
  let ?u = "pow2 (exponent \<bar>x\<bar> - 52)"
  have u: "0 < ?u" by (rule pow2_pos)
  have "fl x - x = (of_int (round_half_even (x / ?u)) - x / ?u) * ?u"
    using assms u by (simp add: fl_def Let_def algebra_simps)
  then have "\<bar>fl x - x\<bar> = \<bar>of_int (round_half_even (x / ?u)) - x / ?u\<bar> * ?u"
    using u by (simp add: abs_mult)
  also have "\<dots> \<le> 1 / 2 * ?u"
    using round_half_even_error [of "x / ?u"] u by (intro mult_right_mono) simp_all
  also have "1 / 2 * ?u = pow2 (exponent \<bar>x\<bar> - 53)"
  proof -
    have "?u = pow2 (1 + (exponent \<bar>x\<bar> - 53))" by simp
    also have "\<dots> = pow2 1 * pow2 (exponent \<bar>x\<bar> - 53)" by (rule pow2_add)
    finally show ?thesis by (simp add: pow2_def)
  qed
  finally show ?thesis .
qed

text \<open>The float nearest to 0.1, and a difference that is 1.5 in decimals but not in floats.\<close>

lemma fl_one_tenth: "fl (1 / 10) = 3602879701896397 / 36028797018963968"
  by code_simp

lemma fsub_below_decimal: "fsub (fl (41 / 10)) (fl (26 / 10)) < 3 / 2"
  by code_simp


section \<open>Properties of the loops\<close>

lemma detect_append:
  "detect cfg L b m prev s ps = ps @ detect cfg L b m prev s []"
  by (simp add: detect_def Let_def split: option.splits)

lemma analyze_moves_Inr:
  "analyze_moves cfg L ms b prev ps eng = (Inr out, eng') \<Longrightarrow>
   length (replay L ms b eng) = length ms \<and>
   calls eng' = calls eng @ map (\<lambda>(b, m, s). Analyse b 18) (replay L ms b eng) \<and>
   reply eng' = reply eng \<and>
   out = ps @ swings cfg L prev (replay L ms b eng)"
proof (induction ms arbitrary: b prev ps eng)
  case Nil
  then show ?case by simp
next
  case (Cons m ms)
  from Cons.prems obtain b' where b': "board_push L b m = Inr b'"
    by (auto split: sum.splits)
  from Cons.prems b' obtain cp where cp: "reply eng (calls eng) b' = Inr cp"
    by (auto simp: analyse_def split: sum.splits)
  from Cons.prems b' cp obtain sc where sc: "truediv cp 100 = Inr sc"
    by (auto simp: analyse_def split: sum.splits)
  let ?eng = "eng\<lparr>calls := calls eng @ [Analyse b' 18]\<rparr>"
  from Cons.prems b' cp sc
  have step: "analyze_moves cfg L ms b' (Some sc) (detect cfg L b' m prev sc ps) ?eng = (Inr out, eng')"
    by (simp add: analyse_def)
  note IH = Cons.IH [OF step]
  have rp: "replay L (m # ms) b eng = (b', m, sc) # replay L ms b' ?eng"
    using b' cp sc by (simp add: analyse_def)
  show ?case
    unfolding rp using IH detect_append [of cfg L b' m prev sc ps] by simp
qed

lemma candidate_Cons:
  "0 < i \<Longrightarrow> candidate L (x # tr) (Suc i) = candidate L tr i"
  by (cases i) (simp_all add: candidate_def score_at_def)

lemma swings_Some:
  "swings cfg L (Some p) tr =
   map (candidate L ((b0, m0, p) # tr))
     (filter (\<lambda>i. MIN_EVAL_SWING cfg \<le> fabs (fsub (score_at ((b0, m0, p) # tr) i)
                                            (score_at ((b0, m0, p) # tr) (i - 1))))
        [1..<Suc (length tr)])"
proof (induction tr arbitrary: p b0 m0)
  case Nil
  then show ?case by simp
next
  case (Cons x tr)
  obtain b m s where x: "x = (b, m, s)" by (cases x)
  let ?tr0 = "(b0, m0, p) # x # tr"
  let ?P = "\<lambda>T i. MIN_EVAL_SWING cfg \<le> fabs (fsub (score_at T i) (score_at T (i - 1)))"
  have upt: "[1..<Suc (length (x # tr))] = 1 # map Suc [1..<Suc (length tr)]"
    by (simp add: upt_conv_Cons map_Suc_upt del: upt_Suc)
  have tail: "map (candidate L ?tr0) (filter (?P ?tr0) (map Suc [1..<Suc (length tr)]))
      = map (candidate L (x # tr)) (filter (?P (x # tr)) [1..<Suc (length tr)])"
  proof -
    have "filter (?P ?tr0) (map Suc [1..<Suc (length tr)])
        = map Suc (filter (?P (x # tr)) [1..<Suc (length tr)])"
      unfolding filter_map o_def
    proof (rule arg_cong [where f = "map Suc"], rule filter_cong [OF refl])
      fix i assume "i \<in> set [1..<Suc (length tr)]"
      then have "0 < i" by (simp del: upt_Suc)
      then show "?P ?tr0 (Suc i) = ?P (x # tr) i"
        by (cases i) (simp_all add: score_at_def)
    qed
    moreover have "map (candidate L ?tr0) (map Suc (filter (?P (x # tr)) [1..<Suc (length tr)]))
        = map (candidate L (x # tr)) (filter (?P (x # tr)) [1..<Suc (length tr)])"
      unfolding map_map o_def
    proof (rule map_cong [OF refl])
      fix i assume "i \<in> set (filter (?P (x # tr)) [1..<Suc (length tr)])"
      then have "0 < i" by (simp del: upt_Suc)
      then show "candidate L ?tr0 (Suc i) = candidate L (x # tr) i"
        by (rule candidate_Cons)
    qed
    ultimately show ?thesis by simp
  qed
  have head: "detect cfg L b m (Some p) s [] =
      map (candidate L ?tr0) (filter (?P ?tr0) [1])"
    by (simp add: detect_def Let_def candidate_def score_at_def x)
  have "swings cfg L (Some p) (x # tr) =
      detect cfg L b m (Some p) s [] @ swings cfg L (Some s) tr"
    by (simp add: x)
  also have "swings cfg L (Some s) tr =
      map (candidate L (x # tr)) (filter (?P (x # tr)) [1..<Suc (length tr)])"
    unfolding x by (rule Cons.IH)
  finally show ?case
    unfolding upt using head tail by simp
qed

lemma swings_None:
  "swings cfg L None tr =
   map (candidate L tr)
     (filter (\<lambda>i. MIN_EVAL_SWING cfg \<le> fabs (fsub (score_at tr i) (score_at tr (i - 1))))
        [1..<length tr])"
proof (cases tr)
  case Nil
  then show ?thesis by simp
next
  case (Cons x tr')
  obtain b m s where x: "x = (b, m, s)" by (cases x)
  show ?thesis
    unfolding Cons x using swings_Some [of cfg L s tr' b m]
    by (simp add: detect_def)
qed


lemma analyze_game_Inr:
  assumes "analyze_game cfg L eng g = (Inr found, eng')"
  shows "length (replay L (mainline_moves g) (board g) eng) = length (mainline_moves g)"
    and "calls eng' = calls eng @
           map (\<lambda>(b, m, s). Analyse b 18) (replay L (mainline_moves g) (board g) eng)"
    and "reply eng' = reply eng"
    and "found = swings cfg L None (replay L (mainline_moves g) (board g) eng)"
  using analyze_moves_Inr [OF assms [unfolded analyze_game_def]] by simp_all

lemma analyze_batch_append:
  "analyze_batch cfg L (xs @ ys) ps eng =
     (case analyze_batch cfg L xs ps eng of
        (Inl err, eng') \<Rightarrow> (Inl err, eng')
      | (Inr ps', eng') \<Rightarrow>
          if xs \<noteq> [] \<and> TARGET_PUZZLES cfg \<le> length ps' then (Inr ps', eng')
          else analyze_batch cfg L ys ps' eng')"
proof (induction xs arbitrary: ps eng)
  case Nil
  then show ?case by simp
next
  case (Cons g xs)
  obtain r eng1 where g: "analyze_game cfg L eng g = (r, eng1)"
    by (cases "analyze_game cfg L eng g")
  show ?case
  proof (cases r)
    case (Inl err)
    with g show ?thesis by simp
  next
    case (Inr found)
    show ?thesis
    proof (cases "TARGET_PUZZLES cfg \<le> length (ps @ found)")
      case True
      with g Inr show ?thesis by simp
    next
      case False
      show ?thesis
      proof (cases xs)
        case Nil
        with g Inr False show ?thesis by simp
      next
        case (Cons g' xs')
        then have ne: "xs \<noteq> []" by simp
        have l: "analyze_batch cfg L ((g # xs) @ ys) ps eng =
              analyze_batch cfg L (xs @ ys) (ps @ found) eng1"
          using g Inr False by simp
        have r: "analyze_batch cfg L (g # xs) ps eng =
              analyze_batch cfg L xs (ps @ found) eng1"
          using g Inr False by simp
        show ?thesis
          unfolding l r using ne
          by (simp add: Cons.IH [of "ps @ found" eng1] split: prod.splits sum.splits)
      qed
    qed
  qed
qed

lemma analyze_batches_flat:
  "0 < BATCH_SIZE cfg \<Longrightarrow>
   analyze_batches cfg L i games ps eng = analyze_batch cfg L (drop i games) ps eng"
proof (induction cfg L i games ps eng rule: analyze_batches.induct)
  case (1 cfg L i games ps eng)
  let ?B = "BATCH_SIZE cfg"
  show ?case
  proof (cases "i < length games")
    case False
    with "1.prems" show ?thesis by (simp add: analyze_batches.simps [of cfg L i])
  next
    case True
    let ?batch = "take ?B (drop i games)"
    have ne: "?batch \<noteq> []" using True "1.prems" by simp
    have split: "drop i games = ?batch @ drop (i + ?B) games"
      by (metis append_take_drop_id drop_drop add.commute)
    obtain r eng1 where b: "analyze_batch cfg L ?batch ps eng = (r, eng1)"
      by (cases "analyze_batch cfg L ?batch ps eng")
    show ?thesis
    proof (cases r)
      case (Inl err)
      have "analyze_batch cfg L (?batch @ drop (i + ?B) games) ps eng = (Inl err, eng1)"
        using b Inl by (simp add: analyze_batch_append)
      moreover have "analyze_batches cfg L i games ps eng = (Inl err, eng1)"
        using b Inl True "1.prems" by (simp add: analyze_batches.simps [of cfg L i])
      ultimately show ?thesis using split by simp
    next
      case (Inr ps')
      show ?thesis
      proof (cases "TARGET_PUZZLES cfg \<le> length ps'")
        case True
        have "analyze_batch cfg L (?batch @ drop (i + ?B) games) ps eng = (Inr ps', eng1)"
          using b Inr True ne by (simp add: analyze_batch_append)
        moreover have "analyze_batches cfg L i games ps eng = (Inr ps', eng1)"
          using b Inr True \<open>i < length games\<close> "1.prems"
          by (simp add: analyze_batches.simps [of cfg L i])
        ultimately show ?thesis using split by simp
      next
        case False
        have "analyze_batch cfg L (?batch @ drop (i + ?B) games) ps eng =
              analyze_batch cfg L (drop (i + ?B) games) ps' eng1"
          using b Inr False by (simp add: analyze_batch_append)
        moreover have "analyze_batches cfg L i games ps eng =
              analyze_batches cfg L (i + ?B) games ps' eng1"
          using b Inr False \<open>i < length games\<close> "1.prems"
          by (simp add: analyze_batches.simps [of cfg L i])
        moreover have "analyze_batches cfg L (i + ?B) games ps' eng1 =
              analyze_batch cfg L (drop (i + ?B) games) ps' eng1"
          using "1.prems" by (intro "1.IH" [OF _ \<open>i < length games\<close> b [symmetric] Inr False]) simp_all
        ultimately show ?thesis using split by simp
      qed
    qed
  qed
qed


lemma analyze_moves_moves:
  "analyze_moves cfg L ms b prev ps eng = (Inr out, eng') \<Longrightarrow>
   map (fst \<circ> snd) (replay L ms b eng) = ms"
proof (induction ms arbitrary: b prev ps eng)
  case Nil
  then show ?case by simp
next
  case (Cons m ms)
  from Cons.prems obtain b' where b': "board_push L b m = Inr b'"
    by (auto split: sum.splits)
  from Cons.prems b' obtain cp where cp: "reply eng (calls eng) b' = Inr cp"
    by (auto simp: analyse_def split: sum.splits)
  from Cons.prems b' cp obtain sc where sc: "truediv cp 100 = Inr sc"
    by (auto simp: analyse_def split: sum.splits)
  let ?eng = "eng\<lparr>calls := calls eng @ [Analyse b' 18]\<rparr>"
  from Cons.prems b' cp sc
  have step: "analyze_moves cfg L ms b' (Some sc) (detect cfg L b' m prev sc ps) ?eng = (Inr out, eng')"
    by (simp add: analyse_def)
  have rp: "replay L (m # ms) b eng = (b', m, sc) # replay L ms b' ?eng"
    using b' cp sc by (simp add: analyse_def)
  show ?case
    unfolding rp using Cons.IH [OF step] by simp
qed

lemma analyze_game_moves:
  "analyze_game cfg L eng g = (Inr found, eng') \<Longrightarrow>
   map (fst \<circ> snd) (replay L (mainline_moves g) (board g) eng) = mainline_moves g"
  unfolding analyze_game_def by (rule analyze_moves_moves)

lemma analyze_batches_Inr_step:
  "analyze_batches cfg L i games ps eng = (Inr acc, eng') \<Longrightarrow> 0 < BATCH_SIZE cfg"
  by (subst (asm) analyze_batches.simps) (auto split: if_splits)

lemma generate_puzzles_Inr:
  assumes "generate_puzzles cfg L games eng = (Inr result, eng')"
  obtains acc eng1 where "analyze_batches cfg L 0 games [] eng = (Inr acc, eng1)"
    and "result = rank cfg acc" and "eng' = quit eng1"
  using assms unfolding generate_puzzles_def
  by (auto split: prod.splits sum.splits)


lemma analyze_batch_calls:
  "analyze_batch cfg L gs ps eng = (Inr out, eng') \<Longrightarrow>
   \<exists>cs. calls eng' = calls eng @ cs \<and> Quit \<notin> set cs"
proof (induction gs arbitrary: ps eng)
  case Nil
  then show ?case by simp
next
  case (Cons g gs)
  from Cons.prems obtain found eng1 where g: "analyze_game cfg L eng g = (Inr found, eng1)"
    by (auto split: prod.splits sum.splits)
  have "Quit \<notin> set (map (\<lambda>(b, m, s). Analyse b 18) tr)" for tr :: "('a \<times> 'b \<times> float) list"
    by (induction tr) auto
  with analyze_game_Inr(2) [OF g]
  obtain cs1 where cs1: "calls eng1 = calls eng @ cs1" "Quit \<notin> set cs1"
    by blast
  show ?case
  proof (cases "TARGET_PUZZLES cfg \<le> length (ps @ found)")
    case True
    with Cons.prems g have "eng' = eng1" by simp
    with cs1 show ?thesis by blast
  next
    case False
    with Cons.prems g have "analyze_batch cfg L gs (ps @ found) eng1 = (Inr out, eng')"
      by simp
    from Cons.IH [OF this] obtain cs2 where "calls eng' = calls eng1 @ cs2" "Quit \<notin> set cs2"
      by blast
    with cs1 have "calls eng' = calls eng @ (cs1 @ cs2) \<and> Quit \<notin> set (cs1 @ cs2)"
      by simp
    then show ?thesis by blast
  qed
qed

lemma swings_ge:
  "MIN_EVAL_SWING cfg = 3 / 2 \<Longrightarrow> p \<in> set (swings cfg L prev tr) \<Longrightarrow> 3 / 2 \<le> swing p"
proof (induction tr arbitrary: prev)
  case Nil
  then show ?case by simp
next
  case (Cons x tr)
  obtain b m s where x: "x = (b, m, s)" by (cases x)
  from Cons.prems(2) consider "p \<in> set (detect cfg L b m prev s [])"
    | "p \<in> set (swings cfg L (Some s) tr)"
    by (auto simp: x)
  then show ?case
  proof cases
    case 1
    then show ?thesis
      using Cons.prems(1) py_round_ge
      by (auto simp: detect_def Let_def split: option.splits if_splits)
  next
    case 2
    then show ?thesis using Cons.IH [OF Cons.prems(1)] by simp
  qed
qed

lemma analyze_batch_swings:
  "MIN_EVAL_SWING cfg = 3 / 2 \<Longrightarrow> \<forall>p \<in> set ps. 3 / 2 \<le> swing p \<Longrightarrow>
   analyze_batch cfg L gs ps eng = (Inr out, eng') \<Longrightarrow> \<forall>p \<in> set out. 3 / 2 \<le> swing p"
proof (induction gs arbitrary: ps eng)
  case Nil
  then show ?case by simp
next
  case (Cons g gs)
  from Cons.prems(3) obtain found eng1 where g: "analyze_game cfg L eng g = (Inr found, eng1)"
    by (auto split: prod.splits sum.splits)
  have found: "\<forall>p \<in> set (ps @ found). 3 / 2 \<le> swing p"
    using Cons.prems(2) swings_ge [OF Cons.prems(1)] analyze_game_Inr(4) [OF g] by auto
  show ?case
  proof (cases "TARGET_PUZZLES cfg \<le> length (ps @ found)")
    case True
    with Cons.prems(3) g have "out = ps @ found" by simp
    with found show ?thesis by simp
  next
    case False
    with Cons.prems(3) g have "analyze_batch cfg L gs (ps @ found) eng1 = (Inr out, eng')"
      by simp
    from Cons.IH [OF Cons.prems(1) found this] show ?thesis .
  qed
qed

lemma filter_py_sorted:
  "filter (\<lambda>x. key x = k) (py_sorted key reverse xs) = filter (\<lambda>x. key x = k) xs"
  by (simp add: py_sorted_def sort_key_stable flip: rev_filter)

lemma set_py_sorted: "set (py_sorted key reverse xs) = set xs"
  by (simp add: py_sorted_def)

lemma length_py_sorted: "length (py_sorted key reverse xs) = length xs"
  by (simp add: py_sorted_def)

lemma sorted_py_sorted_reverse:
  "sorted_wrt (\<lambda>x y. key y \<le> key x) (py_sorted key True xs)"
proof -
  have "sorted (map key (sort_key key (rev xs)))" by (rule sorted_sort_key)
  then have "sorted_wrt (\<lambda>x y. key x \<le> key y) (sort_key key (rev xs))"
    by (simp add: sorted_wrt_map)
  then show ?thesis
    by (simp add: py_sorted_def sorted_wrt_rev)
qed

lemma prefix_filter_take: "prefix (filter P (take n xs)) (filter P xs)"
proof -
  have "filter P xs = filter P (take n xs) @ filter P (drop n xs)"
    by (metis append_take_drop_id filter_append)
  then show ?thesis by (simp add: prefix_def)
qed


section \<open>The claims\<close>

text \<open>
  C1. When \<open>analyze_game\<close> returns, the replay has one evaluation per move, and a candidate
  is emitted at step \<open>i\<close>, \<open>1 \<le> i\<close>, exactly when the float \<open>abs(e_i - e_(i-1))\<close> is at least
  \<open>MIN_EVAL_SWING\<close>: the puzzles returned are the candidates of these steps, in order, and
  the swing stored in the candidate of step \<open>i\<close> is \<open>round(abs(e_i - e_(i-1)), 2)\<close>.
\<close>

theorem analyze_game_swing_detection:
  assumes "analyze_game cfg L eng g = (Inr puzzles, eng')"
  shows "let tr = replay L (mainline_moves g) (board g) eng
         in map (fst \<circ> snd) tr = mainline_moves g \<and>
            puzzles = map (candidate L tr)
              (filter (\<lambda>i. MIN_EVAL_SWING cfg
                   \<le> fabs (fsub (score_at tr i) (score_at tr (i - 1)))) [1..<length tr]) \<and>
            (\<forall>i. swing (candidate L tr i)
                 = py_round (fabs (fsub (score_at tr i) (score_at tr (i - 1)))) 2)"
  using analyze_game_Inr(4) [OF assms] analyze_game_moves [OF assms]
  by (simp add: Let_def swings_None candidate_def)

text \<open>
  The scenario of C1: the evaluations 0.2, 0.3, 2.1, 2.0, -1.0 with the threshold 1.5 give
  candidates at the steps 2 and 4, with the swings 1.8 and 3.0.
\<close>

theorem analyze_game_swing_detection_witness:
  "fst (analyze_game default_config stub_chess (scripted [20, 30, 210, 200, - 100])
          (stub_game ''abcde''))
     = Inr [\<lparr>fen = ''abc'', swing = fl (9 / 5), last_move = ''c'', eval = fl (21 / 10)\<rparr>,
            \<lparr>fen = ''abcde'', swing = 3, last_move = ''e'', eval = - 1\<rparr>] \<and>
   map (snd \<circ> snd) (replay stub_chess ''abcde'' [] (scripted [20, 30, 210, 200, - 100]))
     = [fl (1 / 5), fl (3 / 10), fl (21 / 10), 2, - 1] \<and>
   filter (\<lambda>i. MIN_EVAL_SWING default_config \<le> fabs (fsub
                (score_at (replay stub_chess ''abcde'' [] (scripted [20, 30, 210, 200, - 100])) i)
                (score_at (replay stub_chess ''abcde'' [] (scripted [20, 30, 210, 200, - 100])) (i - 1))))
      [1..<length (replay stub_chess ''abcde'' [] (scripted [20, 30, 210, 200, - 100]))] = [2, 4] \<and>
   [\<lparr>fen = ''abc'', swing = fl (9 / 5), last_move = ''c'', eval = fl (21 / 10)\<rparr>,
    \<lparr>fen = ''abcde'', swing = 3, last_move = ''e'', eval = - 1\<rparr>]
     = map (candidate stub_chess (replay stub_chess ''abcde'' [] (scripted [20, 30, 210, 200, - 100])))
         [2, 4]"
proof -
  let ?E = "scripted [20, 30, 210, 200, - 100]"
  let ?P = "[\<lparr>fen = ''abc'', swing = fl (9 / 5), last_move = ''c'', eval = fl (21 / 10)\<rparr>,
            \<lparr>fen = ''abcde'', swing = 3, last_move = ''e'', eval = - 1\<rparr>]"
  let ?TR = "replay stub_chess ''abcde'' [] ?E"
  have run: "fst (analyze_game default_config stub_chess ?E (stub_game ''abcde'')) = Inr ?P"
    by code_simp
  have evals: "map (snd \<circ> snd) ?TR = [fl (1 / 5), fl (3 / 10), fl (21 / 10), 2, - 1]"
    by code_simp
  have idx: "filter (\<lambda>i. MIN_EVAL_SWING default_config
        \<le> fabs (fsub (score_at ?TR i) (score_at ?TR (i - 1)))) [1..<length ?TR] = [2, 4]"
    by code_simp
  have hyp: "analyze_game default_config stub_chess ?E (stub_game ''abcde'')
        = (Inr ?P, snd (analyze_game default_config stub_chess ?E (stub_game ''abcde'')))"
    using run by (metis prod.collapse)
  have g: "mainline_moves (stub_game ''abcde'') = ''abcde''" "board (stub_game ''abcde'') = []"
    by (simp_all add: stub_game_def)
  from analyze_game_swing_detection [OF hyp, unfolded Let_def g idx]
  have "?P = map (candidate stub_chess ?TR) [2, 4]"
    by (elim conjE)
  with run evals idx show ?thesis
    by (intro conjI)
qed




text \<open>
  C3. The list returned by \<open>generate_puzzles\<close> is sorted by descending swing; among the
  candidates of one swing it keeps the order of the accumulator, taking the earliest
  ones; and the candidates left out have swings no larger than those returned.
\<close>

theorem ranked_descending_stable:
  assumes "generate_puzzles cfg L games eng = (Inr result, eng')"
  shows "\<exists>acc eng1. analyze_batches cfg L 0 games [] eng = (Inr acc, eng1) \<and>
           sorted_wrt (\<lambda>p1 p2. swing p2 \<le> swing p1) result \<and>
           (\<forall>k. prefix (filter (\<lambda>p. swing p = k) result) (filter (\<lambda>p. swing p = k) acc)) \<and>
           (\<exists>dropped. mset (result @ dropped) = mset acc \<and>
              (\<forall>p \<in> set result. \<forall>q \<in> set dropped. swing q \<le> swing p))"
proof -
  from assms obtain acc eng1 where acc: "analyze_batches cfg L 0 games [] eng = (Inr acc, eng1)"
    and r: "result = rank cfg acc"
    by (rule generate_puzzles_Inr)
  let ?s = "py_sorted swing True acc"
  let ?n = "TARGET_PUZZLES cfg"
  have s: "sorted_wrt (\<lambda>p1 p2. swing p2 \<le> swing p1) (take ?n ?s @ drop ?n ?s)"
    using sorted_py_sorted_reverse [of swing acc] by simp
  have "sorted_wrt (\<lambda>p1 p2. swing p2 \<le> swing p1) result"
    unfolding r rank_def by (intro sorted_wrt_take sorted_py_sorted_reverse)
  moreover have "prefix (filter (\<lambda>p. swing p = k) result) (filter (\<lambda>p. swing p = k) acc)" for k
    unfolding r rank_def
    using prefix_filter_take [of "\<lambda>p. swing p = k" ?n ?s]
    by (simp add: filter_py_sorted)
  moreover have "mset (result @ drop ?n ?s) = mset acc"
    unfolding r rank_def by (simp add: py_sorted_def)
  moreover have "\<forall>p \<in> set result. \<forall>q \<in> set (drop ?n ?s). swing q \<le> swing p"
    unfolding r rank_def using s by (simp only: sorted_wrt_append) blast
  ultimately show ?thesis using acc by blast
qed

text \<open>
  The scenario of C3: with a target of 2 and candidates found with the swings 3.0, 1.8 and
  1.6 in that order, the result holds the candidates with the swings 3.0 and 1.8.
\<close>

theorem ranked_descending_stable_witness:
  "fst (analyze_batches (default_config\<lparr>TARGET_PUZZLES := 2\<rparr>) stub_chess 0 [stub_game ''abcd''] []
          (scripted [0, 300, 120, - 40]))
     = Inr [\<lparr>fen = ''ab'', swing = 3, last_move = ''b'', eval = 3\<rparr>,
            \<lparr>fen = ''abc'', swing = fl (9 / 5), last_move = ''c'', eval = fl (6 / 5)\<rparr>,
            \<lparr>fen = ''abcd'', swing = fl (8 / 5), last_move = ''d'', eval = fl (- 2 / 5)\<rparr>] \<and>
   fst (generate_puzzles (default_config\<lparr>TARGET_PUZZLES := 2\<rparr>) stub_chess [stub_game ''abcd'']
          (scripted [0, 300, 120, - 40]))
     = Inr [\<lparr>fen = ''ab'', swing = 3, last_move = ''b'', eval = 3\<rparr>,
            \<lparr>fen = ''abc'', swing = fl (9 / 5), last_move = ''c'', eval = fl (6 / 5)\<rparr>] \<and>
   sorted_wrt (\<lambda>p1 p2. swing p2 \<le> swing p1)
     [\<lparr>fen = ''ab'', swing = 3, last_move = ''b'', eval = 3\<rparr>,
      \<lparr>fen = ''abc'', swing = fl (9 / 5), last_move = ''c'', eval = fl (6 / 5)\<rparr>]"
proof -
  let ?C = "default_config\<lparr>TARGET_PUZZLES := 2\<rparr>"
  let ?E = "scripted [0, 300, 120, - 40]"
  let ?G = "[stub_game ''abcd'']"
  let ?R = "[\<lparr>fen = ''ab'', swing = 3, last_move = ''b'', eval = 3\<rparr>,
             \<lparr>fen = ''abc'', swing = fl (9 / 5), last_move = ''c'', eval = fl (6 / 5)\<rparr>]"
  have a: "fst (analyze_batches ?C stub_chess 0 ?G [] ?E)
     = Inr [\<lparr>fen = ''ab'', swing = 3, last_move = ''b'', eval = 3\<rparr>,
            \<lparr>fen = ''abc'', swing = fl (9 / 5), last_move = ''c'', eval = fl (6 / 5)\<rparr>,
            \<lparr>fen = ''abcd'', swing = fl (8 / 5), last_move = ''d'', eval = fl (- 2 / 5)\<rparr>]"
    by code_simp
  have r: "fst (generate_puzzles ?C stub_chess ?G ?E) = Inr ?R"
    by code_simp
  have hyp: "generate_puzzles ?C stub_chess ?G ?E
      = (Inr ?R, snd (generate_puzzles ?C stub_chess ?G ?E))"
    using r by (metis prod.collapse)
  from ranked_descending_stable [OF hyp]
  have "sorted_wrt (\<lambda>p1 p2. swing p2 \<le> swing p1) ?R" by blast
  with a r show ?thesis by (intro conjI)
qed

text \<open>
  C4. The list returned by \<open>generate_puzzles\<close> has \<open>min(TARGET_PUZZLES, n)\<close> entries,
  where \<open>n\<close> is the number of candidates accumulated by the batch loops.
\<close>

theorem result_length:
  assumes "generate_puzzles cfg L games eng = (Inr result, eng')"
  shows "\<exists>acc eng1. analyze_batches cfg L 0 games [] eng = (Inr acc, eng1) \<and>
           length result = min (TARGET_PUZZLES cfg) (length acc)"
proof -
  from assms obtain acc eng1 where acc: "analyze_batches cfg L 0 games [] eng = (Inr acc, eng1)"
    and r: "result = rank cfg acc"
    by (rule generate_puzzles_Inr)
  have "length result = min (TARGET_PUZZLES cfg) (length acc)"
    by (simp add: r rank_def length_py_sorted min.commute)
  with acc show ?thesis by blast
qed

text \<open>Three candidates and a target of 2 give two puzzles.\<close>

theorem result_length_witness:
  "fst (analyze_batches (default_config\<lparr>TARGET_PUZZLES := 2\<rparr>) stub_chess 0 [stub_game ''abcd''] []
          (scripted [0, 300, 0, 300]))
     = Inr [\<lparr>fen = ''ab'', swing = 3, last_move = ''b'', eval = 3\<rparr>,
            \<lparr>fen = ''abc'', swing = 3, last_move = ''c'', eval = 0\<rparr>,
            \<lparr>fen = ''abcd'', swing = 3, last_move = ''d'', eval = 3\<rparr>] \<and>
   fst (generate_puzzles (default_config\<lparr>TARGET_PUZZLES := 2\<rparr>) stub_chess [stub_game ''abcd'']
          (scripted [0, 300, 0, 300]))
     = Inr [\<lparr>fen = ''ab'', swing = 3, last_move = ''b'', eval = 3\<rparr>,
            \<lparr>fen = ''abc'', swing = 3, last_move = ''c'', eval = 0\<rparr>] \<and>
   length [\<lparr>fen = ''ab'', swing = 3, last_move = ''b'', eval = 3\<rparr>,
           \<lparr>fen = ''abc'', swing = 3, last_move = ''c'', eval = 0\<rparr>]
     = min (TARGET_PUZZLES (default_config\<lparr>TARGET_PUZZLES := 2\<rparr>))
         (length [\<lparr>fen = ''ab'', swing = 3, last_move = ''b'', eval = 3\<rparr>,
                  \<lparr>fen = ''abc'', swing = 3, last_move = ''c'', eval = 0\<rparr>,
                  \<lparr>fen = ''abcd'', swing = 3, last_move = ''d'', eval = 3\<rparr>])"
proof -
  let ?C = "default_config\<lparr>TARGET_PUZZLES := 2\<rparr>"
  let ?E = "scripted [0, 300, 0, 300]"
  let ?G = "[stub_game ''abcd'']"
  let ?A = "[\<lparr>fen = ''ab'', swing = 3, last_move = ''b'', eval = 3\<rparr>,
             \<lparr>fen = ''abc'', swing = 3, last_move = ''c'', eval = 0\<rparr>,
             \<lparr>fen = ''abcd'', swing = 3, last_move = ''d'', eval = 3\<rparr>]"
  let ?R = "[\<lparr>fen = ''ab'', swing = 3, last_move = ''b'', eval = 3\<rparr>,
             \<lparr>fen = ''abc'', swing = 3, last_move = ''c'', eval = 0\<rparr>]"
  have a: "fst (analyze_batches ?C stub_chess 0 ?G [] ?E) = Inr ?A"
    by code_simp
  have r: "fst (generate_puzzles ?C stub_chess ?G ?E) = Inr ?R"
    by code_simp
  have hyp: "generate_puzzles ?C stub_chess ?G ?E
      = (Inr ?R, snd (generate_puzzles ?C stub_chess ?G ?E))"
    using r by (metis prod.collapse)
  from result_length [OF hyp] obtain acc eng1
    where acc: "analyze_batches ?C stub_chess 0 ?G [] ?E = (Inr acc, eng1)"
      and len: "length ?R = min (TARGET_PUZZLES ?C) (length acc)"
    by blast
  from acc a have "acc = ?A" by simp
  with len have "length ?R = min (TARGET_PUZZLES ?C) (length ?A)" by (simp only:)
  with a r show ?thesis by (intro conjI)
qed

text \<open>
  C5 as stated fails: there is no handler around the analysis, so when the engine fails
  at the second position the error leaves \<open>generate_puzzles\<close> and \<open>quit\<close> has not been
  called.
\<close>

theorem engine_failure_leaks_counterexample:
  "calls (scripted [20]) = [] \<and>
   fst (generate_puzzles default_config stub_chess [stub_game ''ab''] (scripted [20]))
     = Inl EngineError \<and>
   calls (snd (generate_puzzles default_config stub_chess [stub_game ''ab''] (scripted [20])))
     = [Analyse ''a'' 18, Analyse ''ab'' 18]"
  by code_simp

text \<open>
  C5, amended. For every run of \<open>generate_puzzles\<close> that completes normally on an engine
  that has not been quit before, \<open>quit\<close> is called exactly once, as the last call on the
  engine.
\<close>

theorem quit_once_on_normal_completion:
  assumes "Quit \<notin> set (calls eng)"
    and "generate_puzzles cfg L games eng = (Inr result, eng')"
  shows "length (filter (\<lambda>c. c = Quit) (calls eng')) = 1 \<and> last (calls eng') = Quit"
proof -
  from assms(2) obtain acc eng1 where acc: "analyze_batches cfg L 0 games [] eng = (Inr acc, eng1)"
    and e: "eng' = quit eng1"
    by (rule generate_puzzles_Inr)
  from acc have "analyze_batch cfg L games [] eng = (Inr acc, eng1)"
    by (simp add: analyze_batches_flat [OF analyze_batches_Inr_step [OF acc]])
  then obtain cs where cs: "calls eng1 = calls eng @ cs" "Quit \<notin> set cs"
    by (blast dest: analyze_batch_calls)
  have "filter (\<lambda>c. c = Quit) (calls eng @ cs) = []"
    using assms(1) cs(2) by (auto simp: filter_empty_conv)
  then show ?thesis
    by (simp add: e quit_def cs(1))
qed

text \<open>A run that completes: three evaluations, then one \<open>quit\<close>.\<close>

theorem quit_once_on_normal_completion_witness:
  "Quit \<notin> set (calls (scripted [0, 200, 0])) \<and>
   fst (generate_puzzles default_config stub_chess [stub_game ''abc''] (scripted [0, 200, 0]))
     = Inr [\<lparr>fen = ''ab'', swing = 2, last_move = ''b'', eval = 2\<rparr>,
            \<lparr>fen = ''abc'', swing = 2, last_move = ''c'', eval = 0\<rparr>] \<and>
   length (filter (\<lambda>c. c = Quit)
     (calls (snd (generate_puzzles default_config stub_chess [stub_game ''abc'']
        (scripted [0, 200, 0]))))) = 1 \<and>
   last (calls (snd (generate_puzzles default_config stub_chess [stub_game ''abc'']
        (scripted [0, 200, 0])))) = Quit"
proof -
  let ?E = "scripted [0, 200, 0]"
  let ?R = "[\<lparr>fen = ''ab'', swing = 2, last_move = ''b'', eval = 2\<rparr>,
             \<lparr>fen = ''abc'', swing = 2, last_move = ''c'', eval = 0\<rparr>]"
  have e: "Quit \<notin> set (calls ?E)" by (simp add: scripted_def)
  have r: "fst (generate_puzzles default_config stub_chess [stub_game ''abc''] ?E) = Inr ?R"
    by code_simp
  have hyp: "generate_puzzles default_config stub_chess [stub_game ''abc''] ?E
      = (Inr ?R, snd (generate_puzzles default_config stub_chess [stub_game ''abc''] ?E))"
    using r by (metis prod.collapse)
  from quit_once_on_normal_completion [OF e hyp] e r show ?thesis by (intro conjI) simp_all
qed

text \<open>
  C8. For a game with fewer than 2 moves, \<open>analyze_game\<close> returns no candidates.
\<close>

theorem short_game_no_candidates:
  assumes "length (mainline_moves g) < 2"
    and "analyze_game cfg L eng g = (Inr found, eng')"
  shows "found = []"
proof -
  let ?tr = "replay L (mainline_moves g) (board g) eng"
  have len: "length ?tr < 2"
    using analyze_game_Inr(1) [OF assms(2)] assms(1) by simp
  have f: "found = swings cfg L None ?tr" by (rule analyze_game_Inr(4) [OF assms(2)])
  show ?thesis
  proof (cases ?tr)
    case Nil
    with f show ?thesis by simp
  next
    case (Cons x tr')
    with len have "tr' = []" by simp
    with f Cons show ?thesis by (cases x) (simp add: detect_def)
  qed
qed

text \<open>A game of one move, whatever the evaluation of its position.\<close>

theorem short_game_no_candidates_witness:
  "length (mainline_moves (stub_game ''a'')) < 2 \<and>
   fst (analyze_game default_config stub_chess (scripted [250]) (stub_game ''a'')) = Inr []"
proof -
  let ?r = "analyze_game default_config stub_chess (scripted [250]) (stub_game ''a'')"
  have len: "length (mainline_moves (stub_game ''a'')) < 2"
    by (simp add: stub_game_def)
  have "case fst ?r of Inl err \<Rightarrow> False | Inr found \<Rightarrow> True"
    by code_simp
  then obtain found where "fst ?r = Inr found"
    by (cases "fst ?r") simp_all
  then have hyp: "?r = (Inr found, snd ?r)" by (metis prod.collapse)
  from short_game_no_candidates [OF len hyp] hyp have "fst ?r = Inr []"
    by (metis fst_conv)
  with len show ?thesis by (intro conjI)
qed

text \<open>
  C9. With the threshold 1.5, every puzzle returned by \<open>generate_puzzles\<close> has a stored
  swing of at least 1.5: rounding a float that is at least 1.5 to two decimals gives a
  float that is at least 1.5.
\<close>

theorem stored_swing_at_least_threshold:
  assumes "MIN_EVAL_SWING cfg = 3 / 2"
    and "generate_puzzles cfg L games eng = (Inr result, eng')"
  shows "(\<forall>p \<in> set result. MIN_EVAL_SWING cfg \<le> swing p) \<and>
         (\<forall>s. MIN_EVAL_SWING cfg \<le> s \<longrightarrow> MIN_EVAL_SWING cfg \<le> py_round s 2)"
proof -
  from assms(2) obtain acc eng1 where acc: "analyze_batches cfg L 0 games [] eng = (Inr acc, eng1)"
    and r: "result = rank cfg acc"
    by (rule generate_puzzles_Inr)
  from acc have "analyze_batch cfg L games [] eng = (Inr acc, eng1)"
    by (simp add: analyze_batches_flat [OF analyze_batches_Inr_step [OF acc]])
  from analyze_batch_swings [OF assms(1) _ this]
  have "\<forall>p \<in> set acc. 3 / 2 \<le> swing p" by simp
  moreover have "set result \<subseteq> set acc"
    unfolding r rank_def using set_take_subset [of "TARGET_PUZZLES cfg" "py_sorted swing True acc"]
    by (simp add: set_py_sorted)
  ultimately have "\<forall>p \<in> set result. 3 / 2 \<le> swing p" by blast
  moreover have "\<forall>s. 3 / 2 \<le> s \<longrightarrow> 3 / 2 \<le> py_round s 2"
    using py_round_ge by blast
  ultimately show ?thesis by (simp only: assms(1))
qed

text \<open>The evaluations 0.2 and 1.7 differ by the float 1.5, which is stored as 1.5.\<close>

theorem stored_swing_at_least_threshold_witness:
  "MIN_EVAL_SWING default_config = 3 / 2 \<and>
   fst (generate_puzzles default_config stub_chess [stub_game ''ab''] (scripted [20, 170]))
     = Inr [\<lparr>fen = ''ab'', swing = 3 / 2, last_move = ''b'', eval = fl (17 / 10)\<rparr>] \<and>
   MIN_EVAL_SWING default_config
     \<le> swing \<lparr>fen = ''ab'', swing = 3 / 2, last_move = ''b'', eval = fl (17 / 10)\<rparr>"
proof -
  let ?E = "scripted [20, 170]"
  let ?R = "[\<lparr>fen = ''ab'', swing = 3 / 2, last_move = ''b'', eval = fl (17 / 10)\<rparr>]"
  have m: "MIN_EVAL_SWING default_config = 3 / 2" by (simp add: default_config_def)
  have r: "fst (generate_puzzles default_config stub_chess [stub_game ''ab''] ?E) = Inr ?R"
    by code_simp
  have hyp: "generate_puzzles default_config stub_chess [stub_game ''ab''] ?E
      = (Inr ?R, snd (generate_puzzles default_config stub_chess [stub_game ''ab''] ?E))"
    using r by (metis prod.collapse)
  from stored_swing_at_least_threshold [OF m hyp]
  have "\<forall>p \<in> set ?R. MIN_EVAL_SWING default_config \<le> swing p" by blast
  then have "MIN_EVAL_SWING default_config
      \<le> swing \<lparr>fen = ''ab'', swing = 3 / 2, last_move = ''b'', eval = fl (17 / 10)\<rparr>"
    by (simp only: list.set ball_simps)
  with m r show ?thesis by (intro conjI)
qed

text \<open>
  C10. For an empty list of games \<open>generate_puzzles\<close> returns the empty list; the only
  call on the engine is \<open>quit\<close>.
\<close>

theorem no_games_no_puzzles:
  assumes "0 < BATCH_SIZE cfg"
  shows "generate_puzzles cfg L [] eng = (Inr [], eng\<lparr>calls := calls eng @ [Quit]\<rparr>)"
  using assms
  by (simp add: generate_puzzles_def analyze_batches.simps [of cfg L 0 "[]"] rank_def
      py_sorted_def quit_def)

text \<open>The configuration of the source and no games.\<close>

theorem no_games_no_puzzles_witness:
  "0 < BATCH_SIZE default_config \<and>
   generate_puzzles default_config stub_chess [] (scripted [20])
     = (Inr [], (scripted [20])\<lparr>calls := calls (scripted [20]) @ [Quit]\<rparr>) \<and>
   calls ((scripted [20])\<lparr>calls := calls (scripted [20]) @ [Quit]\<rparr>) = [Quit]"
proof -
  have b: "0 < BATCH_SIZE default_config" by (simp add: default_config_def)
  from no_games_no_puzzles [OF b, of stub_chess "scripted [20]"] b show ?thesis
    by (simp add: scripted_def)
qed

end
